theory Spec2Isabelle
  imports Complex_Main
begin

section \<open>Transducer power controller: data model\<close>

text \<open>
  The controller of \<^verbatim>\<open>src/code.py\<close> is one object with six attributes, one of which
  refers to a \<^verbatim>\<open>threading.Event\<close>. Power values are Python numbers: the literal
  \<^verbatim>\<open>0\<close>, the integers reached by adding \<^verbatim>\<open>10\<close>, and the float parsed from
  the user's entry. The run only compares such values and adds the integer 10 to an
  integer, and Python compares an integer with a finite float exactly, so every finite
  value is modelled by the real number it denotes. The floats that are not finite have
  no counterpart here; \<^verbatim>\<open>validate_power_setting\<close> is false on them, so
  \<^verbatim>\<open>run\<close> starts no cycle with one.

  Event objects live in an explicit store: \<open>heap\<close> maps an address to the flag of the
  Event allocated there, \<open>next_ref\<close> is the first address not yet allocated. The
  controller holds the address of its Event in \<open>stop_event\<close>.

  The lines the program prints are kept, in order, in \<open>console\<close>.
\<close>

type_synonym ref = nat

datatype console_line =
    Starting real
  | Progress real
  | Stopped real bool
  | Emergency_Activated

record state =
  MIN_POWER :: real
  MAX_POWER :: real
  current_power :: real
  target_power :: real
  is_running :: bool
  stop_event :: ref
  heap :: "ref \<Rightarrow> bool"
  next_ref :: ref
  console :: "console_line list"

subsection \<open>\<^verbatim>\<open>threading.Event\<close>\<close>

definition Event_is_set :: "state \<Rightarrow> bool" where
  "Event_is_set s = heap s (stop_event s)"

definition Event_set :: "state \<Rightarrow> state" where
  "Event_set s = s\<lparr>heap := (heap s)(stop_event s := True)\<rparr>"

definition Event_clear :: "state \<Rightarrow> state" where
  "Event_clear s = s\<lparr>heap := (heap s)(stop_event s := False)\<rparr>"

subsection \<open>\<^verbatim>\<open>__init__\<close>\<close>

text \<open>
  A controller built in a process that has allocated no Event before: the Event of
  line 18 takes address 0 and starts unset.
\<close>

definition TransducerController_init :: state where
  "TransducerController_init =
     \<lparr>MIN_POWER = 50, MAX_POWER = 5000, current_power = 0, target_power = 0,
      is_running = False, stop_event = 0, heap = (\<lambda>_. False), next_ref = 1,
      console = []\<rparr>"

subsection \<open>\<^verbatim>\<open>validate_power_setting\<close>\<close>

text \<open>
  Every method takes the state and returns the state it leaves; a method with a result
  returns the pair of the result and the state.
\<close>

definition validate_power_setting :: "real \<Rightarrow> state \<Rightarrow> bool \<times> state" where
  "validate_power_setting pw s = (MIN_POWER s \<le> pw \<and> pw \<le> MAX_POWER s, s)"

subsection \<open>\<^verbatim>\<open>stop_transducer\<close> and \<^verbatim>\<open>emergency_stop\<close>\<close>

definition stop_transducer :: "state \<Rightarrow> state" where
  "stop_transducer s =
     s\<lparr>is_running := False,
       console := console s @ [Stopped (current_power s) (target_power s \<le> current_power s)]\<rparr>"

definition emergency_stop :: "state \<Rightarrow> state" where
  "emergency_stop s =
     stop_transducer (Event_set (s\<lparr>console := console s @ [Emergency_Activated]\<rparr>))"

subsection \<open>The foreground during a run\<close>

text \<open>
  While the ramp thread runs, the foreground thread can act on the shared controller.
  The ramp thread reads the running flag and the Event once per iteration, at the top of
  the loop, so what the foreground did since the previous read is applied in one piece
  just before each evaluation of the loop condition: nothing, a bare \<^verbatim>\<open>stop_event.set()\<close>,
  or the whole of \<^verbatim>\<open>emergency_stop\<close>. A schedule gives the foreground's action before
  the \<open>i\<close>-th evaluation, counted from 0.
\<close>

datatype fg_action = Idle | Set_Event | Emergency_Stop

fun interfere :: "fg_action \<Rightarrow> state \<Rightarrow> state" where
  "interfere Idle s = s"
| "interfere Set_Event s = Event_set s"
| "interfere Emergency_Stop s = emergency_stop s"

definition no_interference :: "nat \<Rightarrow> fg_action" where
  "no_interference i = Idle"

text \<open>The schedule on which the foreground acts once, before evaluation \<open>k\<close>.\<close>

definition stop_at :: "nat \<Rightarrow> fg_action \<Rightarrow> nat \<Rightarrow> fg_action" where
  "stop_at k a i = (if i = k then a else Idle)"

subsection \<open>\<^verbatim>\<open>simulate_transducer_operation\<close>\<close>

text \<open>Lines 60 to 67: the increment, the clamp and the status line.\<close>

definition ramp_step :: "state \<Rightarrow> state" where
  "ramp_step s =
     (let s1 = s\<lparr>current_power := current_power s + 10\<rparr>;
          s2 = (if target_power s1 < current_power s1
                then s1\<lparr>current_power := target_power s1\<rparr> else s1)
      in s2\<lparr>console := console s2 @ [Progress (current_power s2)]\<rparr>)"

text \<open>The loop of lines 56 to 69; \<open>i\<close> counts the evaluations of its condition.\<close>

function ramp_loop :: "(nat \<Rightarrow> fg_action) \<Rightarrow> nat \<Rightarrow> state \<Rightarrow> state" where
  "ramp_loop env i s =
     (let s1 = interfere (env i) s in
      if is_running s1 \<and> current_power s1 < target_power s1 then
        if Event_is_set s1 then s1
        else ramp_loop env (Suc i) (ramp_step s1)
      else s1)"
  by pat_completeness auto

termination
proof (relation "measure (\<lambda>(env, i, s). nat \<lceil>(target_power s - current_power s) / 10\<rceil>)")
  show "wf (measure (\<lambda>(env, i, s). nat \<lceil>(target_power s - current_power s) / 10\<rceil>))"
    by simp
next
  fix env :: "nat \<Rightarrow> fg_action" and i :: nat and s x :: state
  assume x: "x = interfere (env i) s"
    and run: "is_running x \<and> current_power x < target_power x"
  let ?t = "target_power x" and ?c = "current_power x"
  have same: "target_power s = ?t \<and> current_power s = ?c"
    unfolding x
    by (cases "env i") (simp_all add: emergency_stop_def stop_transducer_def Event_set_def)
  have t': "target_power (ramp_step x) = ?t"
    by (simp add: ramp_step_def Let_def)
  have c': "current_power (ramp_step x) = (if ?t < ?c + 10 then ?t else ?c + 10)"
    by (simp add: ramp_step_def Let_def)
  have pos: "0 < \<lceil>(?t - ?c) / 10\<rceil>"
    using run by (simp add: less_ceiling_iff)
  have "nat \<lceil>(?t - (if ?t < ?c + 10 then ?t else ?c + 10)) / 10\<rceil> < nat \<lceil>(?t - ?c) / 10\<rceil>"
  proof (cases "?t < ?c + 10")
    case True
    then show ?thesis using pos by simp
  next
    case False
    have "(?t - (?c + 10)) / 10 = (?t - ?c) / 10 - 1"
      by (simp add: field_simps)
    then have "\<lceil>(?t - (?c + 10)) / 10\<rceil> = \<lceil>(?t - ?c) / 10\<rceil> - 1"
      by (simp only: ceiling_diff_one)
    then show ?thesis using False pos by simp
  qed
  then show "((env, Suc i, ramp_step x), env, i, s)
      \<in> measure (\<lambda>(env, i, s). nat \<lceil>(target_power s - current_power s) / 10\<rceil>)"
    by (simp add: same t' c')
qed

declare ramp_loop.simps [simp del]

definition simulate_transducer_operation :: "(nat \<Rightarrow> fg_action) \<Rightarrow> state \<Rightarrow> state" where
  "simulate_transducer_operation env s =
     stop_transducer
       (ramp_loop env 0
          (s\<lparr>console := console s @ [Starting (target_power s)],
             current_power := 0, is_running := True\<rparr>))"

subsection \<open>One cycle of \<^verbatim>\<open>run\<close>\<close>

text \<open>
  Lines 99 to 118 for a cycle in which \<^verbatim>\<open>get_user_power_setting\<close> returned the
  target: the Event is cleared, the target is stored, the ramp thread is started and
  joined.
\<close>

definition begin_cycle :: "real \<Rightarrow> state \<Rightarrow> state" where
  "begin_cycle target s = (Event_clear s)\<lparr>target_power := target\<rparr>"

definition run_cycle :: "real \<Rightarrow> (nat \<Rightarrow> fg_action) \<Rightarrow> state \<Rightarrow> state" where
  "run_cycle target env s = simulate_transducer_operation env (begin_cycle target s)"

subsection \<open>\<^verbatim>\<open>get_user_power_setting\<close>\<close>

text \<open>
  What the user does at a prompt is a typed line or Ctrl+C. The code looks at a typed
  line through three tests only, so a line is kept as the class those tests put it in:
  it lowercases to \<^verbatim>\<open>q\<close>, it lowercases to \<^verbatim>\<open>y\<close>, \<^verbatim>\<open>float\<close> parses it to a
  finite number, \<^verbatim>\<open>float\<close> parses it to an infinity or a NaN, or \<^verbatim>\<open>float\<close>
  raises \<^verbatim>\<open>ValueError\<close> on it. The console of the model keeps the lines that carry
  the controller's run state; the banners, prompts and error messages of
  \<^verbatim>\<open>get_user_power_setting\<close> and \<^verbatim>\<open>run\<close> carry none and are not kept.
\<close>

datatype exn = EOFError | KeyboardInterrupt

datatype user_action =
    Typed_q
  | Typed_y
  | Typed_number real
  | Typed_nonfinite
  | Typed_other
  | Ctrl_C

text \<open>
  The prompt loop of lines 26 to 41 on the user's remaining actions. With nothing left
  to read, \<^verbatim>\<open>input\<close> raises \<^verbatim>\<open>EOFError\<close>; Ctrl+C raises
  \<^verbatim>\<open>KeyboardInterrupt\<close>; neither is caught here. A number outside the bounds, among
  them the floats that are not finite, and a line that is no number are answered with
  an error message and the next prompt.
\<close>

fun get_user_power_setting ::
  "user_action list \<Rightarrow> state \<Rightarrow> (exn + real option) \<times> user_action list \<times> state" where
  "get_user_power_setting [] s = (Inl EOFError, [], s)"
| "get_user_power_setting (Ctrl_C # ins) s = (Inl KeyboardInterrupt, ins, s)"
| "get_user_power_setting (Typed_q # ins) s = (Inr None, ins, s)"
| "get_user_power_setting (Typed_number pw # ins) s =
     (if fst (validate_power_setting pw s) then (Inr (Some pw), ins, s)
      else get_user_power_setting ins s)"
| "get_user_power_setting (Typed_nonfinite # ins) s = get_user_power_setting ins s"
| "get_user_power_setting (Typed_y # ins) s = get_user_power_setting ins s"
| "get_user_power_setting (Typed_other # ins) s = get_user_power_setting ins s"

subsection \<open>\<^verbatim>\<open>run\<close>\<close>

text \<open>
  While \<^verbatim>\<open>run\<close> waits in \<^verbatim>\<open>join\<close>, all the foreground can do is take a
  \<^verbatim>\<open>KeyboardInterrupt\<close>, whose handler (lines 125 to 128) calls
  \<^verbatim>\<open>emergency_stop\<close>. For a cycle, \<open>Some k\<close> says that Ctrl+C arrives before
  evaluation \<open>k\<close> of the loop condition, if the ramp gets that far, and \<open>None\<close> that
  it does not arrive during the ramp.
\<close>

definition ctrl_c :: "nat option \<Rightarrow> nat \<Rightarrow> fg_action" where
  "ctrl_c q = (case q of None \<Rightarrow> no_interference | Some k \<Rightarrow> stop_at k Emergency_Stop)"

text \<open>
  The loop of lines 97 to 123 inside the \<^verbatim>\<open>try\<close> of \<^verbatim>\<open>run\<close>, with the handler
  of lines 125 to 128. \<open>irq\<close> gives the arrival of Ctrl+C for each cycle, \<open>n\<close> counts
  the cycles started, \<open>ins\<close> is what the user does at the prompts. The result is the
  exception that leaves \<^verbatim>\<open>run\<close>, if any, and the state left.

  Line 99 clears the Event and only line 85 sets it, so the handler has run during the
  join exactly when the Event is set after it; \<^verbatim>\<open>run\<close> then ends. The ramp thread
  is followed until it has seen the stop. A \<^verbatim>\<open>KeyboardInterrupt\<close> at a prompt is
  handled the same way, with no ramp thread running. \<^verbatim>\<open>EOFError\<close> is not caught.
\<close>

function run_loop ::
  "(nat \<Rightarrow> nat option) \<Rightarrow> nat \<Rightarrow> user_action list \<Rightarrow> state \<Rightarrow> exn option \<times> state" where
  "run_loop irq n ins s =
     (case get_user_power_setting ins (Event_clear s) of
        (Inl KeyboardInterrupt, ins1, s1) \<Rightarrow> (None, emergency_stop s1)
      | (Inl EOFError, ins1, s1) \<Rightarrow> (Some EOFError, s1)
      | (Inr None, ins1, s1) \<Rightarrow> (None, s1)
      | (Inr (Some target), ins1, s1) \<Rightarrow>
          (let s2 = simulate_transducer_operation (ctrl_c (irq n)) (s1\<lparr>target_power := target\<rparr>)
           in if Event_is_set s2 then (None, s2)
              else (case ins1 of
                      [] \<Rightarrow> (Some EOFError, s2)
                    | Ctrl_C # ins2 \<Rightarrow> (None, emergency_stop s2)
                    | Typed_y # ins2 \<Rightarrow> run_loop irq (Suc n) ins2 s2
                    | _ # ins2 \<Rightarrow> (None, s2))))"
  by pat_completeness auto

termination
proof (relation "measure (\<lambda>(irq, n, ins, s). length ins)")
  show "wf (measure (\<lambda>(irq, n, ins, s). length ins))"
    by simp
next
  fix irq :: "nat \<Rightarrow> nat option" and n :: nat and ins xa x22 :: "user_action list"
    and s ya xb :: state and x :: "exn + real option" and y :: "user_action list \<times> state"
    and x21 :: user_action
  assume got: "(x, y) = get_user_power_setting ins (Event_clear s)"
    and rest: "(xa, ya) = y"
    and cons: "xa = x21 # x22"
  have shorter: "length (fst (snd (get_user_power_setting xs u))) \<le> length xs" for xs u
    by (induction xs u rule: get_user_power_setting.induct) auto
  have "xa = fst (snd (get_user_power_setting ins (Event_clear s)))"
    using got[symmetric] rest[symmetric] by simp
  then have "length xa \<le> length ins"
    using shorter by simp
  then show "((irq, Suc n, x22, xb), irq, n, ins, s) \<in> measure (\<lambda>(irq, n, ins, s). length ins)"
    using cons by simp
qed

declare run_loop.simps [simp del]

definition run :: "(nat \<Rightarrow> nat option) \<Rightarrow> user_action list \<Rightarrow> state \<Rightarrow> exn option \<times> state" where
  "run irq ins s = run_loop irq 0 ins s"

subsection \<open>Reachable controller states\<close>

text \<open>
  The states a controller can be in: the one \<^verbatim>\<open>__init__\<close> builds, and those left by
  the methods. \<^verbatim>\<open>run\<close> starts a cycle only with a target that
  \<^verbatim>\<open>get_user_power_setting\<close> accepted, that is one that \<^verbatim>\<open>validate_power_setting\<close>
  returned true for.
\<close>

inductive reachable :: "state \<Rightarrow> bool" where
  reachable_init: "reachable TransducerController_init"
| reachable_cycle:
    "reachable s \<Longrightarrow> fst (validate_power_setting target s) \<Longrightarrow> reachable (run_cycle target env s)"
| reachable_simulate: "reachable s \<Longrightarrow> reachable (simulate_transducer_operation env s)"
| reachable_stop: "reachable s \<Longrightarrow> reachable (stop_transducer s)"
| reachable_emergency: "reachable s \<Longrightarrow> reachable (emergency_stop s)"

section \<open>What a run reports\<close>

text \<open>
  The lines a method printed are those it appended to the console. The progress
  observations of a run are the power values of its status lines (line 67), in order.
\<close>

definition printed :: "state \<Rightarrow> state \<Rightarrow> console_line list" where
  "printed s s' = drop (length (console s)) (console s')"

fun progress_values :: "console_line list \<Rightarrow> real list" where
  "progress_values [] = []"
| "progress_values (Progress v # ls) = v # progress_values ls"
| "progress_values (l # ls) = progress_values ls"

definition observations :: "(nat \<Rightarrow> fg_action) \<Rightarrow> state \<Rightarrow> real list" where
  "observations env s = progress_values (printed s (simulate_transducer_operation env s))"

text \<open>
  The only \<^verbatim>\<open>set()\<close> of the program is line 85, and line 84 prints the emergency
  notice just before it: the calls of \<^verbatim>\<open>set()\<close> behind a piece of console are its
  emergency notices.
\<close>

definition set_calls :: "console_line list \<Rightarrow> nat" where
  "set_calls ls = count_list ls Emergency_Activated"

text \<open>
  Modelled from the spec: the source builds no outcome record. The specification's
  CycleOutcome is read off the state a run leaves as its section 4.2 defines the three
  fields: \<open>final_power = current\<close>, \<open>reached_target = (current >= target)\<close>, which is
  also the boolean \<^verbatim>\<open>stop_transducer\<close> prints, and \<open>interrupted = signal.is_set()\<close>.
\<close>

record cycle_outcome =
  final_power :: real
  reached_target :: bool
  interrupted :: bool

definition outcome :: "state \<Rightarrow> cycle_outcome" where
  "outcome s =
     \<lparr>final_power = current_power s,
      reached_target = (target_power s \<le> current_power s),
      interrupted = Event_is_set s\<rparr>"

text \<open>
  The closed form the specification gives for the power after \<open>j\<close> steps towards
  target \<open>t\<close>: \<open>min (10 * j) t\<close>, and 0 before the first step.
\<close>

definition ramp_value :: "real \<Rightarrow> nat \<Rightarrow> real" where
  "ramp_value t j = (if j = 0 then 0 else min (10 * real j) t)"

text \<open>
  The state in which the loop, entered at evaluation \<open>i\<close>, is left at evaluation \<open>n\<close>:
  the steps in between have been taken and the foreground's action at \<open>n\<close> applied.
\<close>

definition ramp_exit :: "(nat \<Rightarrow> fg_action) \<Rightarrow> nat \<Rightarrow> nat \<Rightarrow> state \<Rightarrow> state" where
  "ramp_exit env i n s =
     interfere (env n)
       (s\<lparr>current_power := ramp_value (target_power s) n,
          console := console s @ map (\<lambda>j. Progress (ramp_value (target_power s) j)) [Suc i..<Suc n]\<rparr>)"

section \<open>The loop in closed form\<close>

lemma interfere_current_power: "current_power (interfere a s) = current_power s"
  by (cases a) (simp_all add: emergency_stop_def stop_transducer_def Event_set_def)

lemma interfere_target_power: "target_power (interfere a s) = target_power s"
  by (cases a) (simp_all add: emergency_stop_def stop_transducer_def Event_set_def)

lemma interfere_frame:
  "MIN_POWER (interfere a s) = MIN_POWER s \<and> MAX_POWER (interfere a s) = MAX_POWER s
   \<and> stop_event (interfere a s) = stop_event s \<and> next_ref (interfere a s) = next_ref s"
  by (cases a) (simp_all add: emergency_stop_def stop_transducer_def Event_set_def)

lemma interfere_is_set: "Event_is_set (interfere a s) = (Event_is_set s \<or> a \<noteq> Idle)"
  by (cases a) (simp_all add: emergency_stop_def stop_transducer_def Event_set_def Event_is_set_def)

lemma interfere_is_running:
  "is_running (interfere a s) = (is_running s \<and> a \<noteq> Emergency_Stop)"
  by (cases a) (simp_all add: emergency_stop_def stop_transducer_def Event_set_def)

lemma interfere_running_unset:
  "is_running (interfere a s) \<Longrightarrow> \<not> Event_is_set (interfere a s) \<Longrightarrow> a = Idle"
  by (simp add: interfere_is_set)

lemma ramp_step_target_power: "target_power (ramp_step s) = target_power s"
  by (simp add: ramp_step_def Let_def)

lemma ramp_value_Suc:
  "ramp_value t j < t \<Longrightarrow>
   (if t < ramp_value t j + 10 then t else ramp_value t j + 10) = ramp_value t (Suc j)"
  by (auto simp: ramp_value_def min_def algebra_simps)

lemma ramp_step_eq:
  "current_power s = ramp_value (target_power s) i \<Longrightarrow> current_power s < target_power s \<Longrightarrow>
   ramp_step s = s\<lparr>current_power := ramp_value (target_power s) (Suc i),
                   console := console s @ [Progress (ramp_value (target_power s) (Suc i))]\<rparr>"
  using ramp_value_Suc[of "target_power s" i]
  by (auto simp: ramp_step_def Let_def)

lemma ramp_loop_shape:
  "current_power s = ramp_value (target_power s) i \<Longrightarrow>
   \<exists>n\<ge>i. (\<forall>j. i \<le> j \<and> j < n \<longrightarrow> env j = Idle \<and> ramp_value (target_power s) j < target_power s)
        \<and> (i < n \<longrightarrow> is_running s \<and> \<not> Event_is_set s)
        \<and> ramp_loop env i s = ramp_exit env i n s
        \<and> (\<not> is_running (ramp_exit env i n s)
             \<or> target_power s \<le> ramp_value (target_power s) n
             \<or> Event_is_set (ramp_exit env i n s))"
proof (induction env i s rule: ramp_loop.induct)
  case (1 env i s)
  let ?t = "target_power s"
  let ?s1 = "interfere (env i) s"
  have "s\<lparr>current_power := ramp_value ?t i\<rparr> = s"
    using "1.prems"[symmetric] by simp
  then have exit_i: "ramp_exit env i i s = ?s1"
    by (simp add: ramp_exit_def)
  show ?case
  proof (cases "is_running ?s1 \<and> current_power ?s1 < target_power ?s1 \<and> \<not> Event_is_set ?s1")
    case False
    then have "ramp_loop env i s = ?s1"
      by (subst ramp_loop.simps) (auto simp: Let_def)
    moreover have "\<not> is_running ?s1 \<or> ?t \<le> ramp_value ?t i \<or> Event_is_set ?s1"
      using False "1.prems" by (auto simp: interfere_current_power interfere_target_power)
    ultimately show ?thesis
      using exit_i by (intro exI[of _ i]) auto
  next
    case True
    then have idle: "env i = Idle"
      using interfere_running_unset by blast
    then have s1: "?s1 = s" by simp
    have lt: "current_power s < ?t" using True s1 by simp
    have step: "ramp_step s = s\<lparr>current_power := ramp_value ?t (Suc i),
                   console := console s @ [Progress (ramp_value ?t (Suc i))]\<rparr>"
      using ramp_step_eq[OF "1.prems" lt] .
    have unfold: "ramp_loop env i s = ramp_loop env (Suc i) (ramp_step s)"
      using True s1 by (subst ramp_loop.simps) (simp add: Let_def)
    have "current_power (ramp_step ?s1) = ramp_value (target_power (ramp_step ?s1)) (Suc i)"
      using step s1 by simp
    from "1.IH"[OF refl _ _ this] True
    obtain n where n: "Suc i \<le> n"
      and idles: "\<forall>j. Suc i \<le> j \<and> j < n \<longrightarrow> env j = Idle \<and> ramp_value ?t j < ?t"
      and eq: "ramp_loop env (Suc i) (ramp_step s) = ramp_exit env (Suc i) n (ramp_step s)"
      and ex: "\<not> is_running (ramp_exit env (Suc i) n (ramp_step s))
             \<or> ?t \<le> ramp_value ?t n
             \<or> Event_is_set (ramp_exit env (Suc i) n (ramp_step s))"
      using s1 by (auto simp: ramp_step_target_power)
    have "Suc i < Suc n" using n by simp
    then have "[Suc i..<Suc n] = Suc i # [Suc (Suc i)..<Suc n]"
      by (rule upt_conv_Cons)
    then have same: "ramp_exit env (Suc i) n (ramp_step s) = ramp_exit env i n s"
      by (simp add: ramp_exit_def step del: upt_Suc)
    have "\<forall>j. i \<le> j \<and> j < n \<longrightarrow> env j = Idle \<and> ramp_value ?t j < ?t"
    proof (intro allI impI)
      fix j assume "i \<le> j \<and> j < n"
      then consider "j = i" | "Suc i \<le> j \<and> j < n" by linarith
      then show "env j = Idle \<and> ramp_value ?t j < ?t"
        using idle lt "1.prems" idles by cases auto
    qed
    moreover have "is_running s \<and> \<not> Event_is_set s" using True s1 by simp
    ultimately show ?thesis
      using n unfold eq ex same by (intro exI[of _ n]) auto
  qed
qed

section \<open>A whole run in closed form\<close>

lemma progress_values_append:
  "progress_values (xs @ ys) = progress_values xs @ progress_values ys"
  by (induction xs rule: progress_values.induct) simp_all

lemma progress_values_map: "progress_values (map (\<lambda>j. Progress (f j)) js) = map f js"
  by (induction js) simp_all

lemma interfere_console:
  "console (interfere a s) = console s @
     (if a = Emergency_Stop
      then [Emergency_Activated, Stopped (current_power s) (target_power s \<le> current_power s)]
      else [])"
  by (cases a) (simp_all add: emergency_stop_def stop_transducer_def Event_set_def)

lemma stop_transducer_frame:
  "current_power (stop_transducer s) = current_power s \<and> target_power (stop_transducer s) = target_power s
   \<and> Event_is_set (stop_transducer s) = Event_is_set s \<and> \<not> is_running (stop_transducer s)
   \<and> MIN_POWER (stop_transducer s) = MIN_POWER s \<and> MAX_POWER (stop_transducer s) = MAX_POWER s
   \<and> stop_event (stop_transducer s) = stop_event s \<and> next_ref (stop_transducer s) = next_ref s"
  by (simp add: stop_transducer_def Event_is_set_def)

lemma simulate_shape:
  fixes env s
  defines "t \<equiv> target_power s"
  obtains n where
    "\<forall>j<n. env j = Idle \<and> ramp_value t j < t"
    "0 < n \<longrightarrow> \<not> Event_is_set s"
    "t \<le> ramp_value t n \<or> Event_is_set s \<or> env n \<noteq> Idle"
    "observations env s = map (ramp_value t) [1..<Suc n]"
    "current_power (simulate_transducer_operation env s) = ramp_value t n"
    "Event_is_set (simulate_transducer_operation env s) = (Event_is_set s \<or> env n \<noteq> Idle)"
    "last (console (simulate_transducer_operation env s)) = Stopped (ramp_value t n) (t \<le> ramp_value t n)"
proof -
  let ?s0 = "s\<lparr>console := console s @ [Starting (target_power s)],
             current_power := 0, is_running := True\<rparr>"
  have "current_power ?s0 = ramp_value (target_power ?s0) 0"
    by (simp add: ramp_value_def)
  from ramp_loop_shape[OF this, of env]
  obtain n where idles: "\<forall>j<n. env j = Idle \<and> ramp_value t j < t"
    and unset: "0 < n \<longrightarrow> \<not> Event_is_set ?s0"
    and eq: "ramp_loop env 0 ?s0 = ramp_exit env 0 n ?s0"
    and ex: "\<not> is_running (ramp_exit env 0 n ?s0) \<or> t \<le> ramp_value t n
             \<or> Event_is_set (ramp_exit env 0 n ?s0)"
    by (auto simp: t_def)
  have sim: "simulate_transducer_operation env s = stop_transducer (ramp_exit env 0 n ?s0)"
    by (simp add: simulate_transducer_operation_def eq)
  have set0: "Event_is_set ?s0 = Event_is_set s"
    by (simp add: Event_is_set_def)
  have set_exit: "Event_is_set (ramp_exit env 0 n ?s0) = (Event_is_set s \<or> env n \<noteq> Idle)"
    unfolding ramp_exit_def interfere_is_set by (simp add: Event_is_set_def)
  have run_exit: "is_running (ramp_exit env 0 n ?s0) = (env n \<noteq> Emergency_Stop)"
    by (simp add: ramp_exit_def interfere_is_running)
  have cur_exit: "current_power (ramp_exit env 0 n ?s0) = ramp_value t n"
    by (simp add: ramp_exit_def interfere_current_power t_def)
  have tgt_exit: "target_power (ramp_exit env 0 n ?s0) = t"
    by (simp add: ramp_exit_def interfere_target_power t_def)
  have con_exit: "console (ramp_exit env 0 n ?s0) =
      console s @ Starting t # map (\<lambda>j. Progress (ramp_value t j)) [Suc 0..<Suc n]
        @ (if env n = Emergency_Stop
           then [Emergency_Activated, Stopped (ramp_value t n) (t \<le> ramp_value t n)] else [])"
    unfolding ramp_exit_def interfere_console by (simp add: t_def del: upt_Suc)
  have con: "console (simulate_transducer_operation env s) =
      console s @ Starting t # map (\<lambda>j. Progress (ramp_value t j)) [Suc 0..<Suc n]
        @ (if env n = Emergency_Stop
           then [Emergency_Activated, Stopped (ramp_value t n) (t \<le> ramp_value t n)] else [])
        @ [Stopped (ramp_value t n) (t \<le> ramp_value t n)]"
    unfolding sim stop_transducer_def
    by (simp add: cur_exit tgt_exit con_exit del: upt_Suc)
  have 1: "0 < n \<longrightarrow> \<not> Event_is_set s" using unset set0 by simp
  have 2: "t \<le> ramp_value t n \<or> Event_is_set s \<or> env n \<noteq> Idle"
    using ex set_exit run_exit by auto
  have 3: "observations env s = map (ramp_value t) [1..<Suc n]"
    unfolding observations_def printed_def con
    by (simp add: progress_values_append progress_values_map del: upt_Suc)
  have 4: "current_power (simulate_transducer_operation env s) = ramp_value t n"
    by (simp add: sim stop_transducer_frame cur_exit)
  have 5: "Event_is_set (simulate_transducer_operation env s) = (Event_is_set s \<or> env n \<noteq> Idle)"
    by (simp add: sim stop_transducer_frame set_exit)
  have 6: "last (console (simulate_transducer_operation env s)) = Stopped (ramp_value t n) (t \<le> ramp_value t n)"
    unfolding con by (simp del: upt_Suc)
  show thesis using that[OF idles 1 2 3 4 5 6] .
qed

lemma simulate_frame:
  "target_power (simulate_transducer_operation env s) = target_power s
   \<and> \<not> is_running (simulate_transducer_operation env s)
   \<and> MIN_POWER (simulate_transducer_operation env s) = MIN_POWER s
   \<and> MAX_POWER (simulate_transducer_operation env s) = MAX_POWER s
   \<and> stop_event (simulate_transducer_operation env s) = stop_event s
   \<and> next_ref (simulate_transducer_operation env s) = next_ref s"
proof -
  let ?s0 = "s\<lparr>console := console s @ [Starting (target_power s)],
             current_power := 0, is_running := True\<rparr>"
  have "current_power ?s0 = ramp_value (target_power ?s0) 0"
    by (simp add: ramp_value_def)
  from ramp_loop_shape[OF this, of env]
  obtain n where eq: "ramp_loop env 0 ?s0 = ramp_exit env 0 n ?s0"
    by auto
  show ?thesis
    by (simp add: simulate_transducer_operation_def eq stop_transducer_frame ramp_exit_def
        interfere_frame interfere_target_power)
qed

section \<open>The emergency notices of a session\<close>

lemma set_calls_append: "set_calls (xs @ ys) = set_calls xs + set_calls ys"
  by (induction xs) (simp_all add: set_calls_def)

lemma set_calls_Cons:
  "set_calls (l # ls) = (if l = Emergency_Activated then 1 else 0) + set_calls ls"
  by (simp add: set_calls_def)

lemma set_calls_progress: "set_calls (map (\<lambda>j. Progress (f j)) js) = 0"
  by (induction js) (simp_all add: set_calls_def)

lemma get_user_power_setting_state: "snd (snd (get_user_power_setting ins s)) = s"
  by (induction ins s rule: get_user_power_setting.induct) simp_all

lemma emergency_stop_console:
  "console (emergency_stop s) =
     console s @ [Emergency_Activated, Stopped (current_power s) (target_power s \<le> current_power s)]"
  by (simp add: emergency_stop_def stop_transducer_def Event_set_def)

lemma simulate_console:
  fixes env s
  defines "t \<equiv> target_power s"
  obtains n where
    "console (simulate_transducer_operation env s) =
      console s @ Starting t # map (\<lambda>j. Progress (ramp_value t j)) [Suc 0..<Suc n]
        @ (if env n = Emergency_Stop
           then [Emergency_Activated, Stopped (ramp_value t n) (t \<le> ramp_value t n)] else [])
        @ [Stopped (ramp_value t n) (t \<le> ramp_value t n)]"
    "Event_is_set (simulate_transducer_operation env s) = (Event_is_set s \<or> env n \<noteq> Idle)"
proof -
  let ?s0 = "s\<lparr>console := console s @ [Starting (target_power s)],
             current_power := 0, is_running := True\<rparr>"
  have "current_power ?s0 = ramp_value (target_power ?s0) 0"
    by (simp add: ramp_value_def)
  from ramp_loop_shape[OF this, of env]
  obtain n where eq: "ramp_loop env 0 ?s0 = ramp_exit env 0 n ?s0"
    by auto
  have sim: "simulate_transducer_operation env s = stop_transducer (ramp_exit env 0 n ?s0)"
    by (simp add: simulate_transducer_operation_def eq)
  have set_exit: "Event_is_set (ramp_exit env 0 n ?s0) = (Event_is_set s \<or> env n \<noteq> Idle)"
    unfolding ramp_exit_def interfere_is_set by (simp add: Event_is_set_def)
  have cur_exit: "current_power (ramp_exit env 0 n ?s0) = ramp_value t n"
    by (simp add: ramp_exit_def interfere_current_power t_def)
  have tgt_exit: "target_power (ramp_exit env 0 n ?s0) = t"
    by (simp add: ramp_exit_def interfere_target_power t_def)
  have con_exit: "console (ramp_exit env 0 n ?s0) =
      console s @ Starting t # map (\<lambda>j. Progress (ramp_value t j)) [Suc 0..<Suc n]
        @ (if env n = Emergency_Stop
           then [Emergency_Activated, Stopped (ramp_value t n) (t \<le> ramp_value t n)] else [])"
    unfolding ramp_exit_def interfere_console by (simp add: t_def del: upt_Suc)
  have 1: "console (simulate_transducer_operation env s) =
      console s @ Starting t # map (\<lambda>j. Progress (ramp_value t j)) [Suc 0..<Suc n]
        @ (if env n = Emergency_Stop
           then [Emergency_Activated, Stopped (ramp_value t n) (t \<le> ramp_value t n)] else [])
        @ [Stopped (ramp_value t n) (t \<le> ramp_value t n)]"
    unfolding sim stop_transducer_def
    by (simp add: cur_exit tgt_exit con_exit del: upt_Suc)
  have 2: "Event_is_set (simulate_transducer_operation env s) = (Event_is_set s \<or> env n \<noteq> Idle)"
    by (simp add: sim stop_transducer_frame set_exit)
  show thesis using that[OF 1 2] .
qed

lemma ctrl_c_actions: "ctrl_c q k \<noteq> Idle \<longleftrightarrow> ctrl_c q k = Emergency_Stop"
  by (cases q) (simp_all add: ctrl_c_def no_interference_def stop_at_def)

lemma cycle_set_calls:
  assumes "\<not> Event_is_set s"
  shows "\<exists>ls. console (simulate_transducer_operation (ctrl_c q) s) = console s @ ls
        \<and> set_calls ls \<le> 1
        \<and> (Event_is_set (simulate_transducer_operation (ctrl_c q) s) \<longleftrightarrow> set_calls ls = 1)"
proof -
  let ?t = "target_power s" and ?env = "ctrl_c q"
  obtain n where con: "console (simulate_transducer_operation ?env s) =
      console s @ Starting ?t # map (\<lambda>j. Progress (ramp_value ?t j)) [Suc 0..<Suc n]
        @ (if ?env n = Emergency_Stop
           then [Emergency_Activated, Stopped (ramp_value ?t n) (?t \<le> ramp_value ?t n)] else [])
        @ [Stopped (ramp_value ?t n) (?t \<le> ramp_value ?t n)]"
    and ev: "Event_is_set (simulate_transducer_operation ?env s) = (Event_is_set s \<or> ?env n \<noteq> Idle)"
    by (rule simulate_console[of ?env s])
  let ?ls = "Starting ?t # map (\<lambda>j. Progress (ramp_value ?t j)) [Suc 0..<Suc n]
        @ (if ?env n = Emergency_Stop
           then [Emergency_Activated, Stopped (ramp_value ?t n) (?t \<le> ramp_value ?t n)] else [])
        @ [Stopped (ramp_value ?t n) (?t \<le> ramp_value ?t n)]"
  have split: "set_calls ?ls = (if ?env n = Emergency_Stop then 1 else 0)"
    by (simp add: set_calls_Cons set_calls_append set_calls_progress del: upt_Suc)
      (simp add: set_calls_def)
  have "console (simulate_transducer_operation ?env s) = console s @ ?ls"
    using con by simp
  moreover have "set_calls ?ls \<le> 1" using split by simp
  moreover have "Event_is_set (simulate_transducer_operation ?env s) \<longleftrightarrow> set_calls ?ls = 1"
    using split ev assms ctrl_c_actions[of q n] by auto
  ultimately show ?thesis by blast
qed

lemma run_loop_set_calls_iff:
  "\<exists>ls. console (snd (run_loop irq n ins s)) = console s @ ls \<and> set_calls ls \<le> 1
      \<and> (Event_is_set (snd (run_loop irq n ins s)) \<longleftrightarrow> set_calls ls = 1)"
proof (induction irq n ins s rule: run_loop.induct)
  case (1 irq n ins s)
  obtain r ins1 s1 where got: "get_user_power_setting ins (Event_clear s) = (r, ins1, s1)"
    by (cases "get_user_power_setting ins (Event_clear s)") auto
  have s1: "s1 = Event_clear s"
    using get_user_power_setting_state[of ins "Event_clear s"] got by simp
  have c1: "console s1 = console s" by (simp add: s1 Event_clear_def)
  have unset1: "\<not> Event_is_set s1" by (simp add: s1 Event_clear_def Event_is_set_def)
  have stop1: "\<exists>ls. console (emergency_stop u) = console u @ ls \<and> set_calls ls \<le> 1
      \<and> (Event_is_set (emergency_stop u) \<longleftrightarrow> set_calls ls = 1)" for u
    by (simp add: emergency_stop_console set_calls_def)
      (simp add: emergency_stop_def stop_transducer_def Event_set_def Event_is_set_def)
  have none: "\<not> Event_is_set u \<Longrightarrow> \<exists>ls. console u = console u @ ls \<and> set_calls ls \<le> 1
      \<and> (Event_is_set u \<longleftrightarrow> set_calls ls = 1)" for u
    by (intro exI[of _ "[]"]) (simp add: set_calls_def)
  show ?case
  proof (cases r)
    case (Inl e)
    then show ?thesis
      using got c1 stop1[of s1] none[OF unset1]
      by (subst (1 2) run_loop.simps) (cases e; simp)
  next
    case (Inr o1)
    show ?thesis
    proof (cases o1)
      case None
      then show ?thesis
        using got Inr c1 none[OF unset1] by (subst (1 2) run_loop.simps) simp
    next
      case (Some target)
      let ?s2 = "simulate_transducer_operation (ctrl_c (irq n)) (s1\<lparr>target_power := target\<rparr>)"
      have "\<not> Event_is_set (s1\<lparr>target_power := target\<rparr>)"
        using unset1 by (simp add: Event_is_set_def)
      from cycle_set_calls[OF this, of "irq n"]
      obtain ls where ls: "console ?s2 = console s @ ls" "set_calls ls \<le> 1"
        "Event_is_set ?s2 \<longleftrightarrow> set_calls ls = 1"
        using c1 by auto
      have keep: "\<exists>ls. console ?s2 = console s @ ls \<and> set_calls ls \<le> 1
          \<and> (Event_is_set ?s2 \<longleftrightarrow> set_calls ls = 1)"
        using ls by blast
      show ?thesis
      proof (cases "Event_is_set ?s2")
        case True
        have "run_loop irq n ins s = (None, ?s2)"
          using got Inr Some True by (subst run_loop.simps) (simp add: Let_def)
        then show ?thesis using keep by simp
      next
        case False
        then have zero: "set_calls ls = 0" using ls by simp
        have unfold: "run_loop irq n ins s =
            (case ins1 of
               [] \<Rightarrow> (Some EOFError, ?s2)
             | Ctrl_C # ins2 \<Rightarrow> (None, emergency_stop ?s2)
             | Typed_y # ins2 \<Rightarrow> run_loop irq (Suc n) ins2 ?s2
             | _ # ins2 \<Rightarrow> (None, ?s2))"
          using got Inr Some False by (subst run_loop.simps) (simp add: Let_def)
        show ?thesis
        proof (cases ins1)
          case Nil
          then show ?thesis using keep by (simp add: unfold)
        next
          case (Cons a ins2)
          show ?thesis
          proof (cases a)
            case Typed_y
            from "1.IH"[OF got[symmetric] Inr Some refl refl False Cons Typed_y]
            obtain ls' where ls': "console (snd (run_loop irq (Suc n) ins2 ?s2)) = console ?s2 @ ls'"
              "set_calls ls' \<le> 1"
              "Event_is_set (snd (run_loop irq (Suc n) ins2 ?s2)) \<longleftrightarrow> set_calls ls' = 1" by auto
            have "console (snd (run_loop irq n ins s)) = console s @ (ls @ ls')"
              using ls ls' by (simp add: unfold Cons Typed_y)
            moreover have "set_calls (ls @ ls') \<le> 1"
              using zero ls' by (simp add: set_calls_append)
            moreover have "Event_is_set (snd (run_loop irq n ins s)) \<longleftrightarrow> set_calls (ls @ ls') = 1"
              using zero ls' by (simp add: unfold Cons Typed_y set_calls_append)
            ultimately show ?thesis by blast
          next
            case Ctrl_C
            obtain ls' where ls': "console (emergency_stop ?s2) = console ?s2 @ ls'"
              "set_calls ls' \<le> 1" "Event_is_set (emergency_stop ?s2) \<longleftrightarrow> set_calls ls' = 1"
              using stop1[of ?s2] by auto
            have "console (snd (run_loop irq n ins s)) = console s @ (ls @ ls')"
              using ls ls' by (simp add: unfold Cons Ctrl_C)
            moreover have "set_calls (ls @ ls') \<le> 1"
              using zero ls' by (simp add: set_calls_append)
            moreover have "Event_is_set (snd (run_loop irq n ins s)) \<longleftrightarrow> set_calls (ls @ ls') = 1"
              using zero ls' by (simp add: unfold Cons Ctrl_C set_calls_append)
            ultimately show ?thesis by blast
          next
            case Typed_q
            then show ?thesis using keep by (simp add: unfold Cons)
          next
            case (Typed_number x)
            then show ?thesis using keep by (simp add: unfold Cons)
          next
            case Typed_nonfinite
            then show ?thesis using keep by (simp add: unfold Cons)
          next
            case Typed_other
            then show ?thesis using keep by (simp add: unfold Cons)
          qed
        qed
      qed
    qed
  qed
qed

section \<open>What the methods leave unchanged\<close>

lemma emergency_stop_frame:
  "MIN_POWER (emergency_stop s) = MIN_POWER s \<and> MAX_POWER (emergency_stop s) = MAX_POWER s
   \<and> stop_event (emergency_stop s) = stop_event s \<and> next_ref (emergency_stop s) = next_ref s"
  using interfere_frame[of Emergency_Stop s] by simp

lemma run_cycle_frame:
  "MIN_POWER (run_cycle t env s) = MIN_POWER s \<and> MAX_POWER (run_cycle t env s) = MAX_POWER s
   \<and> stop_event (run_cycle t env s) = stop_event s \<and> next_ref (run_cycle t env s) = next_ref s"
  by (simp add: run_cycle_def simulate_frame begin_cycle_def Event_clear_def)

lemma reachable_envelope:
  "reachable s \<Longrightarrow> MIN_POWER s = 50 \<and> MAX_POWER s = 5000"
proof (induction rule: reachable.induct)
  case reachable_init
  show ?case by (simp add: TransducerController_init_def)
next
  case (reachable_cycle s target env)
  then show ?case by (simp add: run_cycle_frame)
next
  case (reachable_simulate s env)
  then show ?case by (simp add: simulate_frame)
next
  case (reachable_stop s)
  then show ?case by (simp add: stop_transducer_frame)
next
  case (reachable_emergency s)
  then show ?case by (simp add: emergency_stop_frame)
qed

section \<open>Arithmetic of the ramp\<close>

lemma ramp_value_below:
  "ramp_value t j < t \<Longrightarrow> ramp_value t j = 10 * real j"
  by (auto simp: ramp_value_def min_def split: if_splits)

lemma ramp_value_le_target: "0 \<le> t \<Longrightarrow> ramp_value t j \<le> t"
  by (simp add: ramp_value_def)

lemma ramp_value_nonneg: "0 \<le> t \<Longrightarrow> 0 \<le> ramp_value t j"
  by (simp add: ramp_value_def)

lemma ramp_value_reaches:
  assumes "0 \<le> t" "t \<le> ramp_value t n"
  shows "ramp_value t n = t"
  using assms by (auto simp: ramp_value_def min_def split: if_splits)

lemma ramp_value_mono:
  assumes "ramp_value t a < t" "a < b"
  shows "ramp_value t a < ramp_value t b"
proof -
  have "ramp_value t a = 10 * real a" using assms(1) by (rule ramp_value_below)
  moreover have "10 * real a < 10 * real b" using assms(2) by simp
  moreover have "b \<noteq> 0" using assms(2) by simp
  ultimately show ?thesis using assms(1) by (simp add: ramp_value_def)
qed

lemma steps_bound:
  assumes "\<forall>j<n. ramp_value t j < t"
  shows "n \<le> nat \<lceil>t / 10\<rceil>"
proof (cases n)
  case 0
  then show ?thesis by simp
next
  case (Suc m)
  then have lt: "ramp_value t m < t" using assms by simp
  then have "10 * real m < t" using ramp_value_below[OF lt] by simp
  then have "real m < t / 10" by simp
  then have "int m < \<lceil>t / 10\<rceil>" by (simp add: less_ceiling_iff)
  then show ?thesis using Suc by linarith
qed

lemma steps_exact:
  assumes "\<forall>j<n. ramp_value t j < t" "t \<le> ramp_value t n"
  shows "n = nat \<lceil>t / 10\<rceil>"
proof -
  have le: "n \<le> nat \<lceil>t / 10\<rceil>" using assms(1) by (rule steps_bound)
  have "t \<le> 10 * real n"
    using assms(2) by (auto simp: ramp_value_def split: if_splits)
  then have "t / 10 \<le> real n" by simp
  then have "\<lceil>t / 10\<rceil> \<le> int n" by (simp add: ceiling_le_iff)
  then show ?thesis using le by linarith
qed

section \<open>Evaluating a run on a concrete input\<close>

text \<open>The equations that unfold a run step by step on a concrete state and schedule.\<close>

lemmas run_eval =
  observations_def printed_def simulate_transducer_operation_def ramp_loop.simps
  no_interference_def stop_at_def TransducerController_init_def stop_transducer_def
  emergency_stop_def ramp_step_def Event_is_set_def Event_set_def Event_clear_def Let_def
  outcome_def begin_cycle_def run_cycle_def validate_power_setting_def

section \<open>The power envelope\<close>

text \<open>
  Claim C6. In every state a controller can reach, \<^verbatim>\<open>validate_power_setting\<close> returns
  true exactly for the powers between 50 and 5000, the bounds \<^verbatim>\<open>__init__\<close> stores and
  no method changes, and it leaves the whole state, console included, as it found it.
\<close>

theorem validate_power_setting_envelope:
  "reachable s \<Longrightarrow>
   fst (validate_power_setting pw s) = (50 \<le> pw \<and> pw \<le> 5000)
   \<and> snd (validate_power_setting pw s) = s"
  using reachable_envelope[of s] by (simp add: validate_power_setting_def)

theorem validate_power_setting_envelope_witness:
  "reachable TransducerController_init
   \<and> fst (validate_power_setting 100 TransducerController_init) = (50 \<le> (100::real) \<and> (100::real) \<le> 5000)
   \<and> snd (validate_power_setting 100 TransducerController_init) = TransducerController_init"
  using validate_power_setting_envelope[OF reachable_init, of 100] reachable_init by simp

section \<open>Uninterrupted runs\<close>

text \<open>
  Claim C1. Let the target \<open>t\<close> lie between the controller's bounds. A run towards
  \<open>t\<close>, started with the Event unset and with a foreground that never acts, returns
  with the power equal to \<open>t\<close>; the outcome reports the target as reached and the run as
  not interrupted, and the last line printed is the stop report for \<open>t\<close> with the target
  reached.
\<close>

theorem uninterrupted_run_reaches_target:
  assumes "reachable s"
    and "MIN_POWER s \<le> t" and "t \<le> MAX_POWER s"
    and "\<not> Event_is_set s"
    and "\<forall>i. env i = Idle"
  shows "outcome (simulate_transducer_operation env (s\<lparr>target_power := t\<rparr>))
           = \<lparr>final_power = t, reached_target = True, interrupted = False\<rparr>
       \<and> last (console (simulate_transducer_operation env (s\<lparr>target_power := t\<rparr>))) = Stopped t True
       \<and> \<not> is_running (simulate_transducer_operation env (s\<lparr>target_power := t\<rparr>))"
proof -
  let ?s = "s\<lparr>target_power := t\<rparr>"
  let ?f = "simulate_transducer_operation env ?s"
  have t0: "0 \<le> t" using assms(1,2) reachable_envelope[of s] by simp
  have unset: "\<not> Event_is_set ?s" using assms(4) by (simp add: Event_is_set_def)
  obtain n where ex: "target_power ?s \<le> ramp_value (target_power ?s) n \<or> Event_is_set ?s \<or> env n \<noteq> Idle"
    and cur: "current_power ?f = ramp_value (target_power ?s) n"
    and ev: "Event_is_set ?f = (Event_is_set ?s \<or> env n \<noteq> Idle)"
    and lst: "last (console ?f) = Stopped (ramp_value (target_power ?s) n) (target_power ?s \<le> ramp_value (target_power ?s) n)"
    by (rule simulate_shape[of env ?s])
  have le: "t \<le> ramp_value t n" using ex unset assms(5) by simp
  then have val: "ramp_value t n = t" using t0 by (intro ramp_value_reaches)
  have tgt: "target_power ?f = t" by (simp add: simulate_frame)
  show ?thesis
    using cur ev lst val unset assms(5) tgt
    by (simp add: outcome_def simulate_frame)
qed

theorem uninterrupted_run_reaches_target_witness:
  "reachable TransducerController_init
   \<and> MIN_POWER TransducerController_init \<le> 50 \<and> 50 \<le> MAX_POWER TransducerController_init
   \<and> \<not> Event_is_set TransducerController_init
   \<and> (\<forall>i. no_interference i = Idle)
   \<and> outcome (simulate_transducer_operation no_interference (TransducerController_init\<lparr>target_power := 50\<rparr>))
           = \<lparr>final_power = 50, reached_target = True, interrupted = False\<rparr>"
  using uninterrupted_run_reaches_target[of TransducerController_init 50 no_interference] reachable_init
  by (simp add: TransducerController_init_def Event_is_set_def no_interference_def)

section \<open>The progress observations\<close>

text \<open>
  Claim C10. For a positive target \<open>t\<close>, the \<open>i\<close>-th progress observation of a run,
  counted from 1, is \<open>min (10 * i) t\<close>, for every step the run takes. A run started
  with the Event unset and never disturbed by the foreground makes exactly
  \<open>ceiling (t / 10)\<close> observations. A run that ends below its target ends at 10 times
  the number of steps it took, a multiple of the step size.
\<close>

theorem progress_closed_form:
  assumes "0 < target_power s"
  shows "(\<forall>i < length (observations env s).
            observations env s ! i = min (10 * real (Suc i)) (target_power s))
       \<and> (\<not> Event_is_set s \<and> (\<forall>i. env i = Idle) \<longrightarrow>
            length (observations env s) = nat \<lceil>target_power s / 10\<rceil>)
       \<and> (current_power (simulate_transducer_operation env s) < target_power s \<longrightarrow>
            current_power (simulate_transducer_operation env s)
              = 10 * real (length (observations env s)))"
proof -
  let ?t = "target_power s"
  obtain n where idles: "\<forall>j<n. env j = Idle \<and> ramp_value ?t j < ?t"
    and ex: "?t \<le> ramp_value ?t n \<or> Event_is_set s \<or> env n \<noteq> Idle"
    and obs: "observations env s = map (ramp_value ?t) [1..<Suc n]"
    and cur: "current_power (simulate_transducer_operation env s) = ramp_value ?t n"
    by (rule simulate_shape[of env s])
  have len: "length (observations env s) = n" by (simp add: obs)
  have nth: "\<forall>i < length (observations env s).
            observations env s ! i = min (10 * real (Suc i)) ?t"
    unfolding obs by (simp add: ramp_value_def nth_append del: upt_Suc)
  have full: "\<not> Event_is_set s \<and> (\<forall>i. env i = Idle) \<longrightarrow> n = nat \<lceil>?t / 10\<rceil>"
    using ex idles steps_exact[of n ?t] by auto
  have part: "ramp_value ?t n < ?t \<longrightarrow> ramp_value ?t n = 10 * real n"
    using ramp_value_below by blast
  show ?thesis using nth full part by (simp add: len cur)
qed

theorem progress_closed_form_witness:
  "0 < target_power (TransducerController_init\<lparr>target_power := 25\<rparr>)
   \<and> observations no_interference (TransducerController_init\<lparr>target_power := 25\<rparr>) ! 2 = min (10 * real (Suc 2)) 25
   \<and> length (observations no_interference (TransducerController_init\<lparr>target_power := 25\<rparr>)) = nat \<lceil>25 / (10::real)\<rceil>"
  using progress_closed_form[of "TransducerController_init\<lparr>target_power := 25\<rparr>" no_interference]
  by (simp add: TransducerController_init_def Event_is_set_def no_interference_def)

text \<open>
  Claim C9. \<^const>\<open>ramp_loop\<close> is a total function: its termination proof shows that
  the loop exits for every target, every state and every schedule of the foreground.
  A run takes at most \<open>ceiling (target / 10)\<close> steps, leaves the controller stopped,
  and ends with the target reached or with the Event set; the model has no failing
  branch.
\<close>

theorem ramp_run_terminates:
  "length (observations env s) \<le> nat \<lceil>target_power s / 10\<rceil>
   \<and> \<not> is_running (simulate_transducer_operation env s)
   \<and> (target_power s \<le> current_power (simulate_transducer_operation env s)
        \<or> Event_is_set (simulate_transducer_operation env s))"
proof -
  let ?t = "target_power s"
  obtain n where idles: "\<forall>j<n. env j = Idle \<and> ramp_value ?t j < ?t"
    and ex: "?t \<le> ramp_value ?t n \<or> Event_is_set s \<or> env n \<noteq> Idle"
    and obs: "observations env s = map (ramp_value ?t) [1..<Suc n]"
    and cur: "current_power (simulate_transducer_operation env s) = ramp_value ?t n"
    and ev: "Event_is_set (simulate_transducer_operation env s) = (Event_is_set s \<or> env n \<noteq> Idle)"
    by (rule simulate_shape[of env s])
  have "n \<le> nat \<lceil>?t / 10\<rceil>" using idles by (intro steps_bound) simp
  then show ?thesis using ex by (simp add: obs cur ev simulate_frame)
qed

text \<open>
  Claim C2. The progress observations of a run are strictly increasing and none
  exceeds the target. Each step prints exactly one status line, carrying the power that
  step has set. A non-empty sequence ends with the power the run ends with, and that
  power is the target unless the Event is set at the end. The foreground was idle before
  every step observed, and the Event was unset at the start if any step was observed:
  no observation follows the first evaluation at which the stop was seen.
\<close>

theorem progress_strictly_increasing:
  "sorted_wrt (<) (observations env s)
   \<and> (\<forall>v \<in> set (observations env s). v \<le> target_power s)
   \<and> printed u (ramp_step u) = [Progress (current_power (ramp_step u))]
   \<and> (observations env s \<noteq> [] \<longrightarrow>
        last (observations env s) = current_power (simulate_transducer_operation env s)
        \<and> (last (observations env s) = target_power s
             \<or> Event_is_set (simulate_transducer_operation env s)))
   \<and> (\<forall>j < length (observations env s). env j = Idle)
   \<and> (observations env s \<noteq> [] \<longrightarrow> \<not> Event_is_set s)"
proof -
  let ?t = "target_power s"
  obtain n where idles: "\<forall>j<n. env j = Idle \<and> ramp_value ?t j < ?t"
    and unset: "0 < n \<longrightarrow> \<not> Event_is_set s"
    and ex: "?t \<le> ramp_value ?t n \<or> Event_is_set s \<or> env n \<noteq> Idle"
    and obs: "observations env s = map (ramp_value ?t) [1..<Suc n]"
    and cur: "current_power (simulate_transducer_operation env s) = ramp_value ?t n"
    and ev: "Event_is_set (simulate_transducer_operation env s) = (Event_is_set s \<or> env n \<noteq> Idle)"
    by (rule simulate_shape[of env s])
  have len: "length (observations env s) = n" by (simp add: obs)
  have nth: "observations env s ! i = ramp_value ?t (Suc i)" if "i < n" for i
    using that unfolding obs by (simp add: nth_append del: upt_Suc)
  have inc: "sorted_wrt (<) (observations env s)"
    unfolding sorted_wrt_iff_nth_less
  proof (intro allI impI)
    fix i j assume ij: "i < j" and j: "j < length (observations env s)"
    then have "Suc i < n" "Suc i < Suc j" "i < n" "j < n" using len by simp_all
    then show "observations env s ! i < observations env s ! j"
      using idles ramp_value_mono[of ?t "Suc i" "Suc j"] by (simp add: nth)
  qed
  have pos: "0 < ?t" if "0 < n"
    using idles that by (auto simp: ramp_value_def dest!: spec[of _ 0])
  have bound: "\<forall>v \<in> set (observations env s). v \<le> ?t"
  proof
    fix v assume "v \<in> set (observations env s)"
    then obtain j where "v = ramp_value ?t j" "0 < n" unfolding obs by auto
    then show "v \<le> ?t" using pos ramp_value_le_target[of ?t j] by simp
  qed
  have one: "printed u (ramp_step u) = [Progress (current_power (ramp_step u))]"
    by (simp add: printed_def ramp_step_def Let_def)
  have lst: "last (observations env s) = ramp_value ?t n" if "0 < n"
    using that unfolding obs by (simp add: last_map del: upt_Suc)
  have ends: "ramp_value ?t n = ?t \<or> Event_is_set s \<or> env n \<noteq> Idle" if "0 < n"
    using ex pos[OF that] ramp_value_reaches[of ?t n] by auto
  show ?thesis
    using inc bound one lst ends idles unset
    by (simp add: len cur ev del: sorted_wrt_iff_nth_less) (metis len length_0_conv neq0_conv)
qed

theorem progress_strictly_increasing_witness:
  "observations (stop_at 2 Set_Event) (TransducerController_init\<lparr>target_power := 100\<rparr>) \<noteq> []
   \<and> sorted_wrt (<) (observations (stop_at 2 Set_Event) (TransducerController_init\<lparr>target_power := 100\<rparr>))
   \<and> last (observations (stop_at 2 Set_Event) (TransducerController_init\<lparr>target_power := 100\<rparr>))
       = current_power (simulate_transducer_operation (stop_at 2 Set_Event) (TransducerController_init\<lparr>target_power := 100\<rparr>))
   \<and> \<not> Event_is_set (TransducerController_init\<lparr>target_power := 100\<rparr>)"
proof -
  have ne: "observations (stop_at 2 Set_Event) (TransducerController_init\<lparr>target_power := 100\<rparr>) \<noteq> []"
    by (simp add: run_eval)
  show ?thesis
    using ne progress_strictly_increasing[of "stop_at 2 Set_Event" "TransducerController_init\<lparr>target_power := 100\<rparr>"]
    by simp
qed

section \<open>The range of the reported power\<close>

text \<open>
  The ramp climbs from 0, so a run towards an accepted target reports powers below the
  minimum on its way: the first status line of a run towards 100 carries a power that is
  above 0 and below \<open>MIN_POWER\<close>.
\<close>

theorem ramp_reports_below_min_counterexample:
  "fst (validate_power_setting 100 TransducerController_init)
   \<and> 0 < hd (observations no_interference (begin_cycle 100 TransducerController_init))
   \<and> hd (observations no_interference (begin_cycle 100 TransducerController_init))
        < MIN_POWER TransducerController_init"
  by (simp add: run_eval)

text \<open>
  Claim C3, as amended. For a cycle of a reachable controller started with an accepted
  target \<open>t\<close>, every progress observation lies above 0 and at most at \<open>t\<close>, hence at
  most at the maximum, and the final power lies between 0 and \<open>t\<close>. The minimum is
  no lower bound of the reported powers.
\<close>

theorem reported_power_within_target:
  assumes "reachable s" and "fst (validate_power_setting t s)"
  shows "(\<forall>v \<in> set (observations env (begin_cycle t s)). 0 < v \<and> v \<le> t \<and> v \<le> MAX_POWER s)
       \<and> 0 \<le> final_power (outcome (run_cycle t env s))
       \<and> final_power (outcome (run_cycle t env s)) \<le> t
       \<and> t \<le> MAX_POWER s"
proof -
  let ?s = "begin_cycle t s"
  have tgt: "target_power ?s = t" by (simp add: begin_cycle_def)
  have env: "50 \<le> t \<and> t \<le> MAX_POWER s"
    using assms reachable_envelope[of s] by (simp add: validate_power_setting_def)
  obtain n where obs: "observations env ?s = map (ramp_value (target_power ?s)) [1..<Suc n]"
    and cur: "current_power (simulate_transducer_operation env ?s) = ramp_value (target_power ?s) n"
    by (rule simulate_shape[of env ?s])
  have "0 < v \<and> v \<le> t \<and> v \<le> MAX_POWER s" if "v \<in> set (observations env ?s)" for v
  proof -
    from that obtain j where j: "v = ramp_value t j" "0 < j" unfolding obs tgt by auto
    then have "0 < v" using env by (simp add: ramp_value_def)
    moreover have "v \<le> t" using j env ramp_value_le_target[of t j] by simp
    ultimately show ?thesis using env by simp
  qed
  moreover have "0 \<le> ramp_value t n" "ramp_value t n \<le> t"
    using env ramp_value_nonneg[of t n] ramp_value_le_target[of t n] by simp_all
  ultimately show ?thesis
    using env cur by (simp add: outcome_def run_cycle_def tgt)
qed

theorem reported_power_within_target_witness:
  "reachable TransducerController_init
   \<and> fst (validate_power_setting 100 TransducerController_init)
   \<and> 10 \<in> set (observations no_interference (begin_cycle 100 TransducerController_init))
   \<and> final_power (outcome (run_cycle 100 no_interference TransducerController_init)) \<le> 100"
proof -
  have v: "fst (validate_power_setting 100 TransducerController_init)"
    by (simp add: validate_power_setting_def TransducerController_init_def)
  have m: "10 \<in> set (observations no_interference (begin_cycle 100 TransducerController_init))"
    by (simp add: run_eval)
  show ?thesis
    using reported_power_within_target[OF reachable_init v, of no_interference] reachable_init v m
    by simp
qed

section \<open>Stopping a run\<close>

text \<open>
  Claim C4. Let a run with a non-negative target start with the Event unset, and let
  the foreground act for the first time, by setting the Event or by the emergency stop,
  before evaluation \<open>k\<close> of the loop condition, while the run is still going
  (\<open>k\<close> is at most the number of steps an undisturbed run takes). Then the run makes
  exactly the \<open>k\<close> steps taken before and none after, and its outcome is interrupted.
  If 10 times \<open>k\<close> is below the target, the final power is 10 times \<open>k\<close>, below the
  target, and the target is not reached; otherwise the stop came after the last step,
  and the final power is the target, reported as reached, with the outcome interrupted
  as well.
\<close>

theorem stop_signal_halts_ramp:
  assumes "0 \<le> target_power s" and "\<not> Event_is_set s"
    and "\<forall>j<k. env j = Idle" and "env k \<noteq> Idle"
    and "k \<le> nat \<lceil>target_power s / 10\<rceil>"
  shows "length (observations env s) = k
       \<and> interrupted (outcome (simulate_transducer_operation env s))
       \<and> (10 * real k < target_power s \<longrightarrow>
             final_power (outcome (simulate_transducer_operation env s)) = 10 * real k
           \<and> final_power (outcome (simulate_transducer_operation env s)) < target_power s
           \<and> \<not> reached_target (outcome (simulate_transducer_operation env s)))
       \<and> (target_power s \<le> 10 * real k \<longrightarrow>
             final_power (outcome (simulate_transducer_operation env s)) = target_power s
           \<and> reached_target (outcome (simulate_transducer_operation env s)))"
proof -
  let ?t = "target_power s"
  let ?f = "simulate_transducer_operation env s"
  obtain n where idles: "\<forall>j<n. env j = Idle \<and> ramp_value ?t j < ?t"
    and ex: "?t \<le> ramp_value ?t n \<or> Event_is_set s \<or> env n \<noteq> Idle"
    and obs: "observations env s = map (ramp_value ?t) [1..<Suc n]"
    and cur: "current_power ?f = ramp_value ?t n"
    and ev: "Event_is_set ?f = (Event_is_set s \<or> env n \<noteq> Idle)"
    by (rule simulate_shape[of env s])
  have "\<not> k < n" using idles assms(4) by auto
  moreover have "\<not> n < k"
  proof
    assume nk: "n < k"
    then have "env n = Idle" using assms(3) by simp
    then have "?t \<le> ramp_value ?t n" using ex assms(2) by simp
    then have "n = nat \<lceil>?t / 10\<rceil>" using idles steps_exact[of n ?t] by simp
    then show False using nk assms(5) by simp
  qed
  ultimately have n: "n = k" by simp
  have tgt: "target_power ?f = ?t" by (simp add: simulate_frame)
  have below: "ramp_value ?t k = 10 * real k" if "10 * real k < ?t"
    using that by (simp add: ramp_value_def)
  have above: "ramp_value ?t k = ?t" if "?t \<le> 10 * real k"
    using that assms(1) by (auto simp: ramp_value_def)
  show ?thesis
    using assms(4) below above
    by (auto simp: outcome_def obs cur ev tgt n)
qed

theorem stop_signal_halts_ramp_witness:
  "0 \<le> target_power (TransducerController_init\<lparr>target_power := 100\<rparr>)
   \<and> \<not> Event_is_set (TransducerController_init\<lparr>target_power := 100\<rparr>)
   \<and> stop_at 4 Set_Event 4 \<noteq> Idle
   \<and> 4 \<le> nat \<lceil>target_power (TransducerController_init\<lparr>target_power := 100\<rparr>) / 10\<rceil>
   \<and> outcome (simulate_transducer_operation (stop_at 4 Set_Event) (TransducerController_init\<lparr>target_power := 100\<rparr>))
       = \<lparr>final_power = 40, reached_target = False, interrupted = True\<rparr>
   \<and> length (observations (stop_at 4 Set_Event) (TransducerController_init\<lparr>target_power := 100\<rparr>)) = 4"
  using stop_signal_halts_ramp[of "TransducerController_init\<lparr>target_power := 100\<rparr>" 4 "stop_at 4 Set_Event"]
  by (simp add: TransducerController_init_def Event_is_set_def stop_at_def
      cycle_outcome.equality)

section \<open>The zero target\<close>

text \<open>
  Claim C7. With target 0 the loop is left at the first evaluation of its condition:
  no step is taken, no progress is observed, the final power is 0 and the target counts
  as reached. The outcome is interrupted exactly when the Event was set at the start or
  the foreground acted before that first evaluation; otherwise the outcome is
  final power 0, target reached, not interrupted, and the run prints its start line
  and its stop report only.
\<close>

theorem zero_target_run:
  assumes "target_power s = 0"
  shows "ramp_loop env 0
           (s\<lparr>console := console s @ [Starting (target_power s)],
              current_power := 0, is_running := True\<rparr>)
         = interfere (env 0)
           (s\<lparr>console := console s @ [Starting (target_power s)],
              current_power := 0, is_running := True\<rparr>)
       \<and> observations env s = []
       \<and> final_power (outcome (simulate_transducer_operation env s)) = 0
       \<and> reached_target (outcome (simulate_transducer_operation env s))
       \<and> interrupted (outcome (simulate_transducer_operation env s))
            = (Event_is_set s \<or> env 0 \<noteq> Idle)
       \<and> (\<not> Event_is_set s \<and> env 0 = Idle \<longrightarrow>
            outcome (simulate_transducer_operation env s)
              = \<lparr>final_power = 0, reached_target = True, interrupted = False\<rparr>
          \<and> printed s (simulate_transducer_operation env s) = [Starting 0, Stopped 0 True])"
proof -
  let ?s0 = "s\<lparr>console := console s @ [Starting (target_power s)],
             current_power := 0, is_running := True\<rparr>"
  let ?f = "simulate_transducer_operation env s"
  have loop: "ramp_loop env 0 ?s0 = interfere (env 0) ?s0"
    using assms
    by (subst ramp_loop.simps) (simp add: Let_def interfere_current_power interfere_target_power)
  have f: "?f = stop_transducer (interfere (env 0) ?s0)"
    by (simp add: simulate_transducer_operation_def loop)
  have cur: "current_power ?f = 0"
    unfolding f by (simp add: stop_transducer_frame interfere_current_power)
  have tgt: "target_power ?f = 0"
    using assms by (simp add: simulate_frame)
  have ev: "Event_is_set ?f = (Event_is_set s \<or> env 0 \<noteq> Idle)"
    unfolding f by (simp add: stop_transducer_frame interfere_is_set) (simp add: Event_is_set_def)
  have con: "console ?f = console s @ Starting 0 #
      (if env 0 = Emergency_Stop then [Emergency_Activated, Stopped 0 True] else [])
      @ [Stopped 0 True]"
    unfolding f stop_transducer_def
    using assms by (simp add: interfere_console interfere_current_power interfere_target_power)
  have obs: "observations env s = []"
    by (simp add: observations_def printed_def con)
  have quiet: "printed s ?f = [Starting 0, Stopped 0 True]" if "env 0 = Idle"
    using that by (simp add: printed_def con)
  show ?thesis
    using loop obs quiet by (auto simp: outcome_def cur tgt ev)
qed

theorem zero_target_run_witness:
  "target_power TransducerController_init = 0
   \<and> \<not> Event_is_set TransducerController_init \<and> no_interference 0 = Idle
   \<and> observations no_interference TransducerController_init = []
   \<and> outcome (simulate_transducer_operation no_interference TransducerController_init)
        = \<lparr>final_power = 0, reached_target = True, interrupted = False\<rparr>"
  using zero_target_run[of TransducerController_init no_interference]
  by (simp add: TransducerController_init_def Event_is_set_def no_interference_def)

section \<open>The Event across cycles\<close>

text \<open>
  The controller allocates its Event once, in \<^verbatim>\<open>__init__\<close>. The second of two
  consecutive cycles uses the Event at the address the first one used, and no Event has
  been allocated in between.
\<close>

theorem stop_event_shared_counterexample:
  "stop_event (begin_cycle 60 (run_cycle 50 no_interference TransducerController_init))
     = stop_event (begin_cycle 50 TransducerController_init)
   \<and> next_ref (run_cycle 60 no_interference (run_cycle 50 no_interference TransducerController_init))
     = next_ref TransducerController_init"
  by (simp add: run_cycle_frame begin_cycle_def Event_clear_def)

text \<open>
  Claim C5, as amended. Every cycle uses the one Event of the controller: a cycle
  neither replaces the reference nor allocates an Event. The Event is cleared at the
  start of each cycle, so a cycle begins with the Event unset whatever happened to it
  during the cycle before.
\<close>

theorem stop_event_reused_and_cleared:
  "stop_event (begin_cycle t s) = stop_event s
   \<and> stop_event (run_cycle t env s) = stop_event s
   \<and> next_ref (run_cycle t env s) = next_ref s
   \<and> \<not> Event_is_set (begin_cycle t' (run_cycle t env s))"
  by (simp add: run_cycle_frame begin_cycle_def Event_clear_def Event_is_set_def)

section \<open>What the foreground writes\<close>

text \<open>
  \<^verbatim>\<open>emergency_stop\<close> calls \<^verbatim>\<open>stop_transducer\<close>, which clears the running flag
  and prints the stop report. Take the ramp thread four steps into a run towards 100
  and let the foreground call \<^verbatim>\<open>emergency_stop\<close> there: the running flag, set
  before, is cleared after the call, and the call prints the current power 40 and that
  the target is not reached, in the middle of the run.
\<close>

theorem foreground_stop_counterexample:
  "is_running
     (ramp_step (ramp_step (ramp_step (ramp_step
        (TransducerController_init\<lparr>console := [Starting 100], target_power := 100,
           is_running := True\<rparr>)))))
   \<and> \<not> is_running (emergency_stop
     (ramp_step (ramp_step (ramp_step (ramp_step
        (TransducerController_init\<lparr>console := [Starting 100], target_power := 100,
           is_running := True\<rparr>))))))
   \<and> printed
     (ramp_step (ramp_step (ramp_step (ramp_step
        (TransducerController_init\<lparr>console := [Starting 100], target_power := 100,
           is_running := True\<rparr>)))))
     (emergency_stop
     (ramp_step (ramp_step (ramp_step (ramp_step
        (TransducerController_init\<lparr>console := [Starting 100], target_power := 100,
           is_running := True\<rparr>))))))
     = [Emergency_Activated, Stopped 40 False]"
  by (simp add: run_eval)

text \<open>
  Claim C8, as amended. In a whole session of \<^verbatim>\<open>run\<close>, whatever the user does and
  whenever Ctrl+C arrives, \<^verbatim>\<open>set()\<close> is called at most once, hence at most once in
  any cycle, and the session leaves the Event set exactly when that one call was made;
  each call of \<^verbatim>\<open>emergency_stop\<close> makes one. That call changes the
  Event of the controller, the running flag, which it clears, and the console, and
  nothing else: current power and target power are as before, and a second call leaves
  the store as the first left it. What it prints is the emergency notice and a stop
  report with the current power and whether the target is reached; the ramp thread
  ends its run with the stop report of the terminal outcome.
\<close>

theorem foreground_writes_signal_once:
  "set_calls (printed s (snd (run irq ins s))) \<le> 1
   \<and> Event_is_set (snd (run irq ins s)) = (set_calls (printed s (snd (run irq ins s))) = 1)
   \<and> set_calls (printed s (emergency_stop s)) = 1
   \<and> emergency_stop s =
       s\<lparr>is_running := False,
         heap := (heap s)(stop_event s := True),
         console := console s @
           [Emergency_Activated, Stopped (current_power s) (target_power s \<le> current_power s)]\<rparr>
   \<and> Event_is_set (emergency_stop s)
   \<and> \<not> is_running (emergency_stop s)
   \<and> current_power (emergency_stop s) = current_power s
   \<and> target_power (emergency_stop s) = target_power s
   \<and> heap (emergency_stop (emergency_stop s)) = heap (emergency_stop s)
   \<and> printed s (emergency_stop s) =
       [Emergency_Activated, Stopped (current_power s) (target_power s \<le> current_power s)]
   \<and> last (console (simulate_transducer_operation env s)) =
       Stopped (current_power (simulate_transducer_operation env s))
         (target_power (simulate_transducer_operation env s)
            \<le> current_power (simulate_transducer_operation env s))"
proof -
  obtain ls where ls: "console (snd (run irq ins s)) = console s @ ls" "set_calls ls \<le> 1"
    "Event_is_set (snd (run irq ins s)) \<longleftrightarrow> set_calls ls = 1"
    using run_loop_set_calls_iff[of irq 0 ins s] by (auto simp: run_def)
  have once: "set_calls (printed s (snd (run irq ins s))) \<le> 1
      \<and> Event_is_set (snd (run irq ins s)) = (set_calls (printed s (snd (run irq ins s))) = 1)"
    using ls by (simp add: printed_def)
  have pr: "printed s (emergency_stop s) =
       [Emergency_Activated, Stopped (current_power s) (target_power s \<le> current_power s)]"
    by (simp add: printed_def emergency_stop_console)
  have one: "set_calls (printed s (emergency_stop s)) = 1"
    unfolding pr by (simp add: set_calls_def)
  have rest: "emergency_stop s =
       s\<lparr>is_running := False,
         heap := (heap s)(stop_event s := True),
         console := console s @
           [Emergency_Activated, Stopped (current_power s) (target_power s \<le> current_power s)]\<rparr>
   \<and> Event_is_set (emergency_stop s)
   \<and> \<not> is_running (emergency_stop s)
   \<and> current_power (emergency_stop s) = current_power s
   \<and> target_power (emergency_stop s) = target_power s
   \<and> heap (emergency_stop (emergency_stop s)) = heap (emergency_stop s)"
    by (simp add: emergency_stop_def stop_transducer_def Event_set_def Event_is_set_def)
  have fin: "last (console (simulate_transducer_operation env s)) =
       Stopped (current_power (simulate_transducer_operation env s))
         (target_power (simulate_transducer_operation env s)
            \<le> current_power (simulate_transducer_operation env s))"
    by (simp add: simulate_transducer_operation_def stop_transducer_def)
  show ?thesis using once one rest pr fin by blast
qed

end
